theory Spec2Isabelle
  imports Main "HOL-Library.Monad_Syntax"
begin

section \<open>Python values and strings\<close>

text \<open>
  A Python \<open>str\<close> is a sequence of Unicode code points; \<open>len\<close>, slicing and indexing count
  code points, so a string is a list of code points here. \<open>lit\<close> turns an ASCII literal
  into that representation.
\<close>

type_synonym str = "nat list"

definition lit :: "string \<Rightarrow> str" where
  "lit cs = map of_char cs"

text \<open>
  The fields the news backend delivers are JSON strings or \<open>null\<close>; the code guards some
  of its uses with \<open>x or ""\<close>, and formats others into an f-string, where \<open>None\<close> prints
  as the text \<open>None\<close>.
\<close>

datatype pyval = PNone | PStr str

fun or_empty :: "pyval \<Rightarrow> str" where
  "or_empty PNone = []"
| "or_empty (PStr s) = s"

fun fmt :: "pyval \<Rightarrow> str" where
  "fmt PNone = lit ''None''"
| "fmt (PStr s) = s"

text \<open>
  The tables of the Unicode database that the interpreter consults and that are too large
  to write out are parameters of the model: \<open>str.isalnum\<close> (the regex class \<open>\w\<close> is
  \<open>isalnum\<close> or an underscore), \<open>str.isdecimal\<close> (the regex class \<open>\d\<close>) and
  \<open>str.lower\<close>. The whitespace table is small and is written out in full.
\<close>

record unicode_db =
  isalnum :: "nat \<Rightarrow> bool"
  isdecimal :: "nat \<Rightarrow> bool"
  lower :: "str \<Rightarrow> str"

definition isspace :: "nat \<Rightarrow> bool" where
  "isspace c \<longleftrightarrow>
     (9 \<le> c \<and> c \<le> 13) \<or> (28 \<le> c \<and> c \<le> 32) \<or> c = 133 \<or> c = 160 \<or> c = 5760 \<or>
     (8192 \<le> c \<and> c \<le> 8202) \<or> c = 8232 \<or> c = 8233 \<or> c = 8239 \<or> c = 8287 \<or> c = 12288"

definition is_word :: "unicode_db \<Rightarrow> nat \<Rightarrow> bool" where
  "is_word U c \<longleftrightarrow> isalnum U c \<or> c = 95"

text \<open>An instance of the tables that is exact on ASCII text, used to run the model.\<close>

definition ascii_alnum :: "nat \<Rightarrow> bool" where
  "ascii_alnum c \<longleftrightarrow> (48 \<le> c \<and> c \<le> 57) \<or> (65 \<le> c \<and> c \<le> 90) \<or> (97 \<le> c \<and> c \<le> 122)"

definition ascii_digit :: "nat \<Rightarrow> bool" where
  "ascii_digit c \<longleftrightarrow> 48 \<le> c \<and> c \<le> 57"

definition ascii_lower :: "str \<Rightarrow> str" where
  "ascii_lower s = map (\<lambda>c. if 65 \<le> c \<and> c \<le> 90 then c + 32 else c) s"

definition ascii_db :: unicode_db where
  "ascii_db = \<lparr> isalnum = ascii_alnum, isdecimal = ascii_digit, lower = ascii_lower \<rparr>"

subsection \<open>String methods\<close>

definition lstrip :: "str \<Rightarrow> str" where
  "lstrip s = dropWhile isspace s"

definition rstrip :: "str \<Rightarrow> str" where
  "rstrip s = rev (dropWhile isspace (rev s))"

definition strip :: "str \<Rightarrow> str" where
  "strip s = rstrip (lstrip s)"

definition rstrip_chars :: "str \<Rightarrow> str \<Rightarrow> str" where
  "rstrip_chars s cs = rev (dropWhile (\<lambda>c. c \<in> set cs) (rev s))"

definition starts_at :: "str \<Rightarrow> str \<Rightarrow> nat \<Rightarrow> bool" where
  "starts_at sub s i \<longleftrightarrow> take (length sub) (drop i s) = sub"

definition contains :: "str \<Rightarrow> str \<Rightarrow> bool" where
  "contains sub s \<longleftrightarrow> list_ex (starts_at sub s) [0..<Suc (length s)]"

definition rfind :: "str \<Rightarrow> str \<Rightarrow> int" where
  "rfind s sub =
     (case filter (starts_at sub s) (rev [0..<Suc (length s)]) of
        [] \<Rightarrow> - 1
      | i # _ \<Rightarrow> int i)"

definition slice_to :: "str \<Rightarrow> int \<Rightarrow> str" where
  "slice_to s k = (if k < 0 then take (length s - nat (- k)) s else take (nat k) s)"

section \<open>Regular expressions\<close>

text \<open>
  The patterns of the program are flat sequences of the atoms below: one character of a
  class, a greedy star or a greedy option on a class, the word boundary \<open>\b\<close> and the
  anchor \<open>$\<close>. \<open>match_ends\<close> lists the positions where a match that starts at \<open>pos\<close>
  can end, in the order in which the backtracking matcher tries them; the match it
  reports is the first.
\<close>

datatype atom = Chr "nat \<Rightarrow> bool" | Star "nat \<Rightarrow> bool" | Opt "nat \<Rightarrow> bool" | WordB | Dollar

definition word_boundary :: "unicode_db \<Rightarrow> str \<Rightarrow> nat \<Rightarrow> bool" where
  "word_boundary U s pos \<longleftrightarrow>
     (0 < pos \<and> pos \<le> length s \<and> is_word U (s ! (pos - 1)))
       \<noteq> (pos < length s \<and> is_word U (s ! pos))"

definition at_dollar :: "str \<Rightarrow> nat \<Rightarrow> bool" where
  "at_dollar s pos \<longleftrightarrow>
     pos = length s \<or> (Suc pos = length s \<and> s ! pos = 10)"

fun match_ends :: "unicode_db \<Rightarrow> atom list \<Rightarrow> str \<Rightarrow> nat \<Rightarrow> nat list" where
  "match_ends U [] s pos = [pos]"
| "match_ends U (Chr p # ps) s pos =
     (if pos < length s \<and> p (s ! pos) then match_ends U ps s (Suc pos) else [])"
| "match_ends U (Star p # ps) s pos =
     concat (map (\<lambda>k. match_ends U ps s (pos + k))
                 (rev [0..<Suc (length (takeWhile p (drop pos s)))]))"
| "match_ends U (Opt p # ps) s pos =
     (if pos < length s \<and> p (s ! pos) then match_ends U ps s (Suc pos) else [])
       @ match_ends U ps s pos"
| "match_ends U (WordB # ps) s pos =
     (if word_boundary U s pos then match_ends U ps s pos else [])"
| "match_ends U (Dollar # ps) s pos =
     (if at_dollar s pos then match_ends U ps s pos else [])"

fun first_match :: "unicode_db \<Rightarrow> atom list \<Rightarrow> str \<Rightarrow> nat list \<Rightarrow> (nat \<times> nat) option" where
  "first_match U pat s [] = None"
| "first_match U pat s (i # is) =
     (case match_ends U pat s i of
        [] \<Rightarrow> first_match U pat s is
      | e # _ \<Rightarrow> Some (i, e))"

definition re_search :: "unicode_db \<Rightarrow> atom list \<Rightarrow> str \<Rightarrow> bool" where
  "re_search U pat s \<longleftrightarrow> first_match U pat s [0..<Suc (length s)] \<noteq> None"

text \<open>
  \<open>re.sub\<close>: the leftmost match from the current position is replaced and the scan
  goes on behind it. After an empty match the next character is copied. (No pattern of
  the program matches the empty string.)
\<close>

function sub_from :: "unicode_db \<Rightarrow> atom list \<Rightarrow> str \<Rightarrow> str \<Rightarrow> nat \<Rightarrow> str" where
  "sub_from U pat repl s pos =
     (if length s < pos then []
      else case first_match U pat s [pos..<Suc (length s)] of
             None \<Rightarrow> drop pos s
           | Some (i, e) \<Rightarrow>
               if e \<le> i then
                 take (i - pos) (drop pos s) @ repl @
                   (if i < length s then s ! i # sub_from U pat repl s (Suc i) else [])
               else take (i - pos) (drop pos s) @ repl @ sub_from U pat repl s e)"
  by pat_completeness auto
termination
proof -
  have range: "i \<in> set is" if "first_match U pat s is = Some (i, e)"
    for U pat s "is" i e
    using that by (induction "is") (auto split: list.splits)
  show ?thesis
    by (relation "measure (\<lambda>(U, pat, repl, s, pos). Suc (length s) - pos)")
       (auto dest!: range)
qed

declare sub_from.simps [simp del]

definition re_sub :: "unicode_db \<Rightarrow> atom list \<Rightarrow> str \<Rightarrow> str \<Rightarrow> str" where
  "re_sub U pat repl s = sub_from U pat repl s 0"

definition chars :: "str \<Rightarrow> atom list" where
  "chars s = map (\<lambda>c. Chr (\<lambda>x. x = c)) s"

section \<open>Description trimming\<close>

text \<open>
  The marker pattern of \<open>combine_and_trim_description\<close> as the source file spells it: the
  code points U+201A, U+00C4, U+00B6, a space, \<open>[+\<close>, one or more digits, \<open> chars]\<close>.
\<close>

definition marker_pattern :: "unicode_db \<Rightarrow> atom list" where
  "marker_pattern U =
     chars [8218, 196, 182, 32, 91, 43] @ [Chr (isdecimal U), Star (isdecimal U)]
       @ chars (lit '' chars]'')"

definition keep_char :: "nat \<Rightarrow> bool" where
  "keep_char c \<longleftrightarrow>
     (97 \<le> c \<and> c \<le> 122) \<or> (65 \<le> c \<and> c \<le> 90) \<or> (48 \<le> c \<and> c \<le> 57) \<or> isspace c
       \<or> c = 46 \<or> c = 44 \<or> c = 33 \<or> c = 63"

definition combine_and_trim_description :: "unicode_db \<Rightarrow> pyval \<Rightarrow> pyval \<Rightarrow> str" where
  "combine_and_trim_description U description content =
     (let content1 = re_sub U (marker_pattern U) [] (or_empty content);
          description1 = or_empty description;
          combined = strip (strip description1 @ [32] @ strip content1);
          combined = re_sub U [Chr (\<lambda>c. \<not> keep_char c)] [] combined;
          combined = take 700 combined;
          last_sentence_end = rfind combined [46]
      in strip (if last_sentence_end \<noteq> - 1
                then slice_to combined (last_sentence_end + 1)
                else rstrip_chars combined [46] @ [46]))"


text \<open>
  The two halves of \<open>combine_and_trim_description\<close>, named for the proofs: the cleaned
  text cut to 700 characters, and the cut back to the last full stop.
\<close>

definition trim_window :: "unicode_db \<Rightarrow> pyval \<Rightarrow> pyval \<Rightarrow> str" where
  "trim_window U description content =
     take 700 (re_sub U [Chr (\<lambda>c. \<not> keep_char c)] []
                (strip (strip (or_empty description) @ [32]
                   @ strip (re_sub U (marker_pattern U) [] (or_empty content)))))"

definition sentence_cut :: "str \<Rightarrow> str" where
  "sentence_cut w = (if rfind w [46] \<noteq> - 1 then slice_to w (rfind w [46] + 1)
                     else rstrip_chars w [46] @ [46])"

section \<open>Dictionaries and lists\<close>

text \<open>
  An article is a dictionary from keys to strings or \<open>None\<close>; \<open>d.get(k, "")\<close> is
  \<open>dget d k\<close>. \<open>index\<close> is list indexing, which raises \<open>IndexError\<close> out of range
  (the value \<open>None\<close> here).
\<close>

type_synonym article = "string \<rightharpoonup> pyval"

definition dget :: "article \<Rightarrow> string \<Rightarrow> pyval" where
  "dget d k = (case d k of None \<Rightarrow> PStr [] | Some v \<Rightarrow> v)"

definition index :: "'a list \<Rightarrow> nat \<Rightarrow> 'a option" where
  "index xs i = (if i < length xs then Some (xs ! i) else None)"

subsection \<open>Splitting\<close>

text \<open>
  \<open>s.split()\<close> without an argument skips whitespace, takes the run of other characters
  as a word, and goes on behind it.
\<close>

function split_ws :: "str \<Rightarrow> str list" where
  "split_ws s =
     (let s1 = dropWhile isspace s
      in if s1 = [] then []
         else takeWhile (\<lambda>c. \<not> isspace c) s1 # split_ws (dropWhile (\<lambda>c. \<not> isspace c) s1))"
  by pat_completeness auto
termination
proof (relation "measure length")
  show "wf (measure length)" by simp
next
  fix s s1 :: str
  assume s1: "s1 = dropWhile isspace s" and ne: "s1 \<noteq> []"
  from ne obtain c cs where c: "s1 = c # cs" by (cases s1) auto
  from s1 ne have "\<not> isspace (hd s1)" by (simp add: hd_dropWhile)
  with c have "\<not> isspace c" by simp
  with c have "length (dropWhile (\<lambda>c. \<not> isspace c) s1) \<le> length cs"
    by (simp add: length_dropWhile_le)
  moreover have "length s1 \<le> length s"
    using s1 by (simp add: length_dropWhile_le)
  ultimately show "(dropWhile (\<lambda>c. \<not> isspace c) s1, s) \<in> measure length"
    using c by simp
qed

declare split_ws.simps [simp del]

text \<open>
  \<open>s.split(sep)\<close> with a separator cuts at its occurrences from the left, without
  overlap, and keeps empty pieces. \<open>cur\<close> is the piece being read, reversed. (Python
  refuses an empty separator; the program splits on literals only.)
\<close>

function split_from :: "str \<Rightarrow> str \<Rightarrow> str \<Rightarrow> str list" where
  "split_from sep cur [] = [rev cur]"
| "split_from sep cur (c # cs) =
     (if sep \<noteq> [] \<and> starts_at sep (c # cs) 0
      then rev cur # split_from sep [] (drop (length sep) (c # cs))
      else split_from sep (c # cur) cs)"
  by pat_completeness auto
termination
  by (relation "measure (\<lambda>(sep, cur, s). length s)") auto

definition split_sep :: "str \<Rightarrow> str \<Rightarrow> str list" where
  "split_sep s sep = split_from sep [] s"

fun join :: "str \<Rightarrow> str list \<Rightarrow> str" where
  "join sep [] = []"
| "join sep [x] = x"
| "join sep (x # y # ys) = x @ sep @ join sep (y # ys)"

definition replace :: "str \<Rightarrow> str \<Rightarrow> str \<Rightarrow> str" where
  "replace s old new = join new (split_sep s old)"

section \<open>Relevance filtering\<close>

text \<open>
  The pattern \<open>\b\<close> + \<open>re.escape(word)\<close> + \<open>\b\<close>: the escaped word matches its own
  characters one by one.
\<close>

definition keyword_pattern :: "str \<Rightarrow> atom list" where
  "keyword_pattern word = WordB # chars word @ [WordB]"

definition is_relevant :: "unicode_db \<Rightarrow> article \<Rightarrow> str \<Rightarrow> bool" where
  "is_relevant U article topic =
     (let combined_text = lower U (fmt (dget article ''title'') @ [32]
                                     @ fmt (dget article ''description'') @ [32]
                                     @ fmt (dget article ''content''));
          topic_keywords = split_ws (lower U topic)
      in list_all (\<lambda>word. re_search U (keyword_pattern word) combined_text) topic_keywords)"

text \<open>
  The relevance test in the words of the specification. A keyword of a text is one of
  its whitespace-delimited words: a non-empty run of characters other than whitespace,
  with whitespace or the end of the text on either side. A keyword occurs as a whole word
  in a text when the text splits into a part before, the keyword and a part behind, with a
  word boundary on both sides of the keyword. A word boundary lies between two parts when
  exactly one of the two characters next to it is a word character (a missing character
  counts as none).
\<close>

definition spec_keyword :: "str \<Rightarrow> str \<Rightarrow> bool" where
  "spec_keyword w s \<longleftrightarrow>
     w \<noteq> [] \<and> (\<forall>c\<in>set w. \<not> isspace c)
       \<and> (\<exists>pre post. s = pre @ w @ post \<and> (pre = [] \<or> isspace (last pre))
             \<and> (post = [] \<or> isspace (hd post)))"

definition boundary_between :: "unicode_db \<Rightarrow> str \<Rightarrow> str \<Rightarrow> bool" where
  "boundary_between U l r \<longleftrightarrow>
     (l \<noteq> [] \<and> is_word U (last l)) \<noteq> (r \<noteq> [] \<and> is_word U (hd r))"

definition spec_whole_word :: "unicode_db \<Rightarrow> str \<Rightarrow> str \<Rightarrow> bool" where
  "spec_whole_word U w s \<longleftrightarrow>
     (\<exists>pre post. s = pre @ w @ post \<and> boundary_between U pre (w @ post)
        \<and> boundary_between U (pre @ w) post)"

text \<open>
  A property of every real \<open>str.lower\<close> that the parameter need not have: the whitespace
  characters have no case, so a string of whitespace is left as it is.
\<close>

definition lower_fixes_whitespace :: "unicode_db \<Rightarrow> bool" where
  "lower_fixes_whitespace U \<longleftrightarrow> (\<forall>s. (\<forall>c\<in>set s. isspace c) \<longrightarrow> lower U s = s)"

section \<open>Fetching news\<close>

text \<open>
  What the news backend answers: a status and a list of article records, each with
  string-or-null fields and a nested \<open>source\<close> object. Absent keys are \<open>None\<close> of the
  option type. The backend call itself may raise, which is the answer \<open>None\<close>.
\<close>

record raw_article =
  art_fields :: article
  source_obj :: "article option"

record response =
  status :: "pyval option"
  articles :: "raw_article list option"

record request =
  req_q :: str
  req_qintitle :: str
  req_language :: str
  req_sort_by :: str
  req_page :: nat
  req_page_size :: nat

type_synonym backend = "request \<Rightarrow> response option"

definition source_name :: "raw_article \<Rightarrow> pyval" where
  "source_name a = (case source_obj a of None \<Rightarrow> PStr [] | Some src \<Rightarrow> dget src ''name'')"

definition kept_article :: "raw_article \<Rightarrow> article" where
  "kept_article a =
     [''title'' \<mapsto> dget (art_fields a) ''title'',
      ''description'' \<mapsto> dget (art_fields a) ''description'',
      ''content'' \<mapsto> dget (art_fields a) ''content'',
      ''source'' \<mapsto> source_name a,
      ''publishedAt'' \<mapsto> dget (art_fields a) ''publishedAt'',
      ''url'' \<mapsto> dget (art_fields a) ''url'']"

fun collect :: "unicode_db \<Rightarrow> str \<Rightarrow> article list \<Rightarrow> raw_article list \<Rightarrow> article list" where
  "collect U topic acc [] = acc"
| "collect U topic acc (a # as) =
     collect U topic
       (if is_relevant U (art_fields a) topic then acc @ [kept_article a] else acc) as"

definition get_everything_args :: "str \<Rightarrow> request" where
  "get_everything_args topic =
     \<lparr> req_q = topic, req_qintitle = topic, req_language = lit ''en'',
       req_sort_by = lit ''relevancy'', req_page = 1, req_page_size = 20 \<rparr>"

definition get_news :: "unicode_db \<Rightarrow> backend \<Rightarrow> str \<Rightarrow> article list option" where
  "get_news U newsapi topic =
     do {
       resp \<leftarrow> newsapi (get_everything_args topic);
       let found = (if status resp = Some (PStr (lit ''ok''))
                     then collect U topic [] (case articles resp of None \<Rightarrow> [] | Some as \<Rightarrow> as)
                     else []);
       Some (take 5 found)
     }"


section \<open>Summarising\<close>

text \<open>
  The model call \<open>chain.run\<close> answers with a text or raises (\<open>None\<close>), and its answers
  may differ from call to call: it is a function of a state that it also updates.
  \<open>summarize_article_tool\<close> below is the function under the \<open>@tool\<close> decorator; the
  call through the decorator follows it.
\<close>

type_synonym 'st llm = "'st \<Rightarrow> str \<Rightarrow> str option \<times> 'st"

record tool_result =
  headline :: str
  summary :: str
  tags :: "str list"

definition clean :: "unicode_db \<Rightarrow> pyval \<Rightarrow> str" where
  "clean U x =
     re_sub U [Chr (\<lambda>c. \<not> (is_word U c \<or> isspace c \<or> c = 46 \<or> c = 44 \<or> c = 33 \<or> c = 63))] []
       (or_empty x)"

text \<open>
  The two clean-up patterns of the summary, \<open>\s*Tags?:\s*.*$\<close> and \<open>\s*\bTags?\b.*$\<close>,
  both with \<open>re.IGNORECASE\<close>: a letter matches its upper and lower case, and \<open>s\<close> also
  the long s (U+017F). The dot matches everything but a line feed.
\<close>

definition one_of :: "nat list \<Rightarrow> atom" where
  "one_of cs = Chr (\<lambda>c. c \<in> set cs)"

definition opt_of :: "nat list \<Rightarrow> atom" where
  "opt_of cs = Opt (\<lambda>c. c \<in> set cs)"

definition tags_colon_pattern :: "atom list" where
  "tags_colon_pattern =
     [Star isspace, one_of [84, 116], one_of [65, 97], one_of [71, 103], opt_of [83, 115, 383],
      one_of [58], Star isspace, Star (\<lambda>c. c \<noteq> 10), Dollar]"

definition tags_word_pattern :: "atom list" where
  "tags_word_pattern =
     [Star isspace, WordB, one_of [84, 116], one_of [65, 97], one_of [71, 103],
      opt_of [83, 115, 383], WordB, Star (\<lambda>c. c \<noteq> 10), Dollar]"

definition fallback :: tool_result where
  "fallback =
     \<lparr> headline = lit ''Headline unavailable'',
       summary = lit ''Summary unavailable due to content filter or formatting issue.'',
       tags = [lit ''General''] \<rparr>"

text \<open>
  The body of the \<open>try\<close> block behind the model call. Every indexing is a step that may
  raise; \<open>None\<close> is an exception on the way.
\<close>

definition extract_fields :: "unicode_db \<Rightarrow> str \<Rightarrow> tool_result option" where
  "extract_fields U result =
     do {
       h \<leftarrow> (if contains (lit ''Headline:'') result \<and> contains (lit ''Summary:'') result
             then do {
               a \<leftarrow> index (split_sep result (lit ''Headline:'')) 1;
               b \<leftarrow> index (split_sep a (lit ''Summary:'')) 0;
               Some (strip b) }
             else Some (lit ''Headline unavailable''));
       s1 \<leftarrow> (if contains (lit ''Summary:'') result
              then (if contains (lit ''Tag:'') result
                    then do {
                      a \<leftarrow> index (split_sep result (lit ''Summary:'')) 1;
                      b \<leftarrow> index (split_sep a (lit ''Tag:'')) 0;
                      Some (strip b) }
                    else do {
                      a \<leftarrow> index (split_sep result (lit ''Summary:'')) 1;
                      Some (strip a) })
              else Some (lit ''Summary unavailable''));
       s2 \<leftarrow> (if contains (lit ''Tags:'') s1
              then do { a \<leftarrow> index (split_sep s1 (lit ''Tags:'')) 0; Some (strip a) }
              else Some s1);
       let s3 = re_sub U tags_colon_pattern [] s2;
       let s4 = re_sub U tags_word_pattern [] s3;
       t \<leftarrow> (if contains (lit ''Tags:'') result
             then do {
               a \<leftarrow> index (split_sep result (lit ''Tags:'')) 1;
               let tags_text = strip a;
               Some (take 3 (map strip (filter (\<lambda>tag. strip tag \<noteq> []) (split_sep tags_text [44])))) }
             else Some [lit ''General'']);
       Some \<lparr> headline = h, summary = s4, tags = t \<rparr>
     }"

definition summarize_article_tool ::
  "unicode_db \<Rightarrow> 'st llm \<Rightarrow> 'st \<Rightarrow> pyval \<Rightarrow> pyval \<Rightarrow> pyval \<Rightarrow> tool_result \<times> 'st" where
  "summarize_article_tool U chain_run st title description content =
     (let full_text = strip (clean U title @ lit ''. '' @ clean U description @ lit ''. ''
                              @ clean U content);
          truncated_text = take 1500 full_text;
          (answer, st1) = chain_run st truncated_text
      in (case Option.bind answer (extract_fields U) of
            None \<Rightarrow> fallback
          | Some r \<Rightarrow> r, st1))"

text \<open>The text handed to the model, named for the proofs.\<close>

definition truncated_text :: "unicode_db \<Rightarrow> pyval \<Rightarrow> pyval \<Rightarrow> pyval \<Rightarrow> str" where
  "truncated_text U title description content =
     take 1500 (strip (clean U title @ lit ''. '' @ clean U description @ lit ''. ''
                        @ clean U content))"

text \<open>
  The call \<open>summarize_article_tool.invoke({...})\<close>: the decorator has made a tool whose
  three parameters are declared \<open>str\<close>, and \<open>invoke\<close> validates the arguments before
  it runs the function. A \<open>None\<close> argument is refused with a \<open>ValidationError\<close> (the
  value \<open>None\<close> of the option type); strings go through to the function.
\<close>

fun is_str :: "pyval \<Rightarrow> bool" where
  "is_str PNone = False"
| "is_str (PStr s) = True"

definition invoke_summarize_article_tool ::
  "unicode_db \<Rightarrow> 'st llm \<Rightarrow> 'st \<Rightarrow> pyval \<Rightarrow> pyval \<Rightarrow> pyval \<Rightarrow> (tool_result \<times> 'st) option" where
  "invoke_summarize_article_tool U chain_run st title description content =
     (if is_str title \<and> is_str description \<and> is_str content
      then Some (summarize_article_tool U chain_run st title description content)
      else None)"

section \<open>The summarise stage\<close>

text \<open>
  \<open>datetime.fromisoformat\<close> and \<open>strftime\<close> with the program's format string are
  parameters; either may raise (\<open>None\<close>). On a \<open>None\<close> argument the \<open>replace\<close> call
  raises. In every such case the bare \<open>except\<close> hands the argument back.
\<close>

record 'dt date_lib =
  fromisoformat :: "str \<Rightarrow> 'dt option"
  strftime :: "'dt \<Rightarrow> str option"

fun format_date :: "'dt date_lib \<Rightarrow> pyval \<Rightarrow> pyval" where
  "format_date L PNone = PNone"
| "format_date L (PStr iso_date) =
     (case Option.bind (fromisoformat L (replace iso_date (lit ''Z'') (lit ''+00:00'')))
             (strftime L) of
        None \<Rightarrow> PStr iso_date
      | Some formatted \<Rightarrow> PStr formatted)"

record summary_entry = tool_result +
  source :: pyval
  date :: pyval

record news_state =
  st_topic :: str
  st_articles :: "article list"
  st_summaries :: "summary_entry list"

definition summary_of :: "'dt date_lib \<Rightarrow> article \<Rightarrow> tool_result \<Rightarrow> summary_entry" where
  "summary_of L article r =
     \<lparr> headline = headline r, summary = summary r, tags = tags r,
       source = dget article ''source'',
       date = format_date L (dget article ''publishedAt'') \<rparr>"

text \<open>
  The list comprehension of \<open>summarize_node\<close>: one call of the tool per article, in
  order. When a call raises, the stage raises and no summaries are made.
\<close>

fun summarize_each ::
  "unicode_db \<Rightarrow> 'dt date_lib \<Rightarrow> 'st llm \<Rightarrow> 'st \<Rightarrow> article list
     \<Rightarrow> (summary_entry list \<times> 'st) option" where
  "summarize_each U L chain_run st [] = Some ([], st)"
| "summarize_each U L chain_run st (article # rest) =
     do {
       (r, st1) \<leftarrow> invoke_summarize_article_tool U chain_run st (dget article ''title'')
                      (dget article ''description'') (dget article ''content'');
       (more, st2) \<leftarrow> summarize_each U L chain_run st1 rest;
       Some (summary_of L article r # more, st2)
     }"

definition summarize_node ::
  "unicode_db \<Rightarrow> 'dt date_lib \<Rightarrow> 'st llm \<Rightarrow> 'st \<Rightarrow> news_state
     \<Rightarrow> (summary_entry list \<times> 'st) option" where
  "summarize_node U L chain_run st state = summarize_each U L chain_run st (st_articles state)"




section \<open>An example backend\<close>

text \<open>A backend that answers every request with one article, with the title \<open>EV surge\<close>.\<close>

definition example_raw :: raw_article where
  "example_raw = \<lparr> art_fields = [''title'' \<mapsto> PStr (lit ''EV surge'')], source_obj = None \<rparr>"

definition example_backend :: backend where
  "example_backend = (\<lambda>_. Some \<lparr> status = Some (PStr (lit ''ok'')), articles = Some [example_raw] \<rparr>)"


text \<open>
  A model that gives the same answer to every call, and a date library that parses one
  timestamp and prints it the way the program's format string does.
\<close>

definition always_answer :: "str \<Rightarrow> unit llm" where
  "always_answer r st prompt = (Some r, st)"


section \<open>Facts about the string methods\<close>

lemma lit_simps [simp]:
  "lit [] = []"
  "lit (c # cs) = of_char c # lit cs"
  by (simp_all add: lit_def)

lemma starts_at_single: "starts_at [c] s i \<longleftrightarrow> i < length s \<and> s ! i = c"
proof (cases "i < length s")
  case True
  then have "drop i s = s ! i # drop (Suc i) s"
    by (simp add: Cons_nth_drop_Suc)
  with True show ?thesis by (simp add: starts_at_def)
next
  case False
  then show ?thesis by (simp add: starts_at_def)
qed

lemma rfind_absent: "c \<notin> set s \<Longrightarrow> rfind s [c] = - 1"
proof -
  assume a: "c \<notin> set s"
  have "filter (starts_at [c] s) (rev [0..<Suc (length s)]) = []"
    using a by (auto simp: filter_empty_conv starts_at_single simp del: upt_Suc)
  then show ?thesis by (simp add: rfind_def del: upt_Suc)
qed

lemma rfind_present:
  assumes "c \<in> set s"
  shows "\<exists>i. rfind s [c] = int i \<and> i < length s \<and> s ! i = c"
proof -
  let ?f = "filter (starts_at [c] s) (rev [0..<Suc (length s)])"
  from assms obtain j where j: "j < length s" "s ! j = c"
    by (auto simp: in_set_conv_nth)
  then have "j \<in> set ?f"
    by (auto simp: starts_at_single simp del: upt_Suc)
  then obtain i rest where f: "?f = i # rest"
    by (cases ?f) auto
  then have "i \<in> set ?f" by simp
  then have "i < length s \<and> s ! i = c"
    by (auto simp: starts_at_single simp del: upt_Suc)
  moreover have "rfind s [c] = int i"
    using f by (simp add: rfind_def del: upt_Suc)
  ultimately show ?thesis by blast
qed

lemma rfind_last:
  assumes "c \<notin> set post"
  shows "rfind (pre @ c # post) [c] = int (length pre)"
proof -
  let ?s = "pre @ c # post"
  let ?k = "length pre"
  have u: "[0..<Suc (length ?s)] = [0..<?k] @ ?k # [Suc ?k..<Suc (length ?s)]"
    by (metis length_append upt_add_eq_append upt_conv_Cons zero_le
          add_Suc_right length_Cons less_add_Suc1)
  have "\<not> starts_at [c] ?s i" if "i \<in> set [Suc ?k..<Suc (length ?s)]" for i
  proof -
    from that have i: "?k < i" by (simp del: upt_Suc)
    show ?thesis
    proof (cases "i < length ?s")
      case True
      then have "?s ! i = post ! (i - Suc ?k)"
        using i by (simp add: nth_append nth_Cons')
      moreover have "i - Suc ?k < length post" using True i by simp
      ultimately have "?s ! i \<in> set post" by simp
      with assms show ?thesis by (auto simp: starts_at_single)
    next
      case False
      then show ?thesis by (simp add: starts_at_single)
    qed
  qed
  then have "filter (starts_at [c] ?s) (rev [Suc ?k..<Suc (length ?s)]) = []"
    by (simp add: filter_empty_conv del: upt_Suc)
  moreover have "starts_at [c] ?s ?k" by (simp add: starts_at_single)
  ultimately have "filter (starts_at [c] ?s) (rev [0..<Suc (length ?s)])
      = ?k # filter (starts_at [c] ?s) (rev [0..<?k])"
    by (subst u) (simp del: upt_Suc)
  then show ?thesis by (simp add: rfind_def del: upt_Suc)
qed

lemma dropWhile_rev_id: "t \<noteq> [] \<Longrightarrow> \<not> P (last t) \<Longrightarrow> dropWhile P (rev t) = rev t"
  by (cases t rule: rev_cases) auto

lemma strip_keeps_last:
  assumes "s \<noteq> []" "\<not> isspace (last s)"
  shows "strip s \<noteq> [] \<and> last (strip s) = last s"
proof -
  let ?t = "dropWhile isspace s"
  have "last s \<in> set s" using assms(1) by simp
  with assms(2) have ne: "?t \<noteq> []"
    by (auto simp: dropWhile_eq_Nil_conv)
  have "last (takeWhile isspace s @ ?t) = last ?t"
    using ne by (rule last_appendR)
  then have l: "last ?t = last s" by simp
  have "dropWhile isspace (rev ?t) = rev ?t"
    using ne assms(2) l by (simp add: dropWhile_rev_id)
  then have "strip s = ?t"
    by (simp add: strip_def rstrip_def lstrip_def)
  with ne l show ?thesis by simp
qed

lemma length_strip: "length (strip s) \<le> length s"
proof -
  have "length (rstrip t) \<le> length t" for t
    unfolding rstrip_def by (metis length_dropWhile_le length_rev)
  moreover have "length (lstrip s) \<le> length s"
    unfolding lstrip_def by (rule length_dropWhile_le)
  ultimately show ?thesis unfolding strip_def by (meson le_trans)
qed

lemma strip_all_space: "\<forall>c\<in>set s. isspace c \<Longrightarrow> strip s = []"
proof -
  assume "\<forall>c\<in>set s. isspace c"
  then have h: "dropWhile isspace s = []" by (simp add: dropWhile_eq_Nil_conv)
  show ?thesis unfolding strip_def lstrip_def rstrip_def h by simp
qed

lemma strip_Nil [simp]: "strip [] = []"
  by (simp add: strip_all_space)

lemma strip_id:
  assumes "s \<noteq> []" "\<not> isspace (hd s)" "\<not> isspace (last s)"
  shows "strip s = s"
proof -
  have "dropWhile isspace s = s" using assms(1,2) by (cases s) simp_all
  moreover have "dropWhile isspace (rev s) = rev s"
    using assms(1,3) by (rule dropWhile_rev_id)
  ultimately show ?thesis by (simp add: strip_def lstrip_def rstrip_def)
qed

lemma not_space_period [simp]: "\<not> isspace 46"
  by (simp add: isspace_def)

section \<open>Facts about the matcher\<close>

lemma first_match_None:
  "first_match U pat s is = None \<longleftrightarrow> (\<forall>i\<in>set is. match_ends U pat s i = [])"
  by (induction "is") (auto split: list.splits)

lemma first_match_Some_upt:
  "first_match U pat s [pos..<n] = Some (i, e) \<Longrightarrow>
     pos \<le> i \<and> i < n \<and> (\<forall>j. pos \<le> j \<and> j < i \<longrightarrow> match_ends U pat s j = [])
       \<and> (\<exists>es. match_ends U pat s i = e # es)"
proof (induction "n - pos" arbitrary: pos)
  case 0
  then show ?case by simp
next
  case (Suc k)
  then have u: "[pos..<n] = pos # [Suc pos..<n]" and k: "k = n - Suc pos" "pos < n"
    by (auto simp: upt_conv_Cons)
  show ?case
  proof (cases "match_ends U pat s pos")
    case Nil
    with Suc.prems u have "first_match U pat s [Suc pos..<n] = Some (i, e)" by simp
    from Suc.hyps(1)[OF k(1) this] have
      ih: "Suc pos \<le> i" "i < n" "\<forall>j. Suc pos \<le> j \<and> j < i \<longrightarrow> match_ends U pat s j = []"
      "\<exists>es. match_ends U pat s i = e # es" by blast+
    have "match_ends U pat s j = []" if "pos \<le> j" "j < i" for j
      using that ih(3) Nil by (cases "j = pos") auto
    with ih show ?thesis by auto
  next
    case (Cons e' es')
    with Suc.prems u have "pos = i" "e' = e" by simp_all
    with Cons k show ?thesis by auto
  qed
qed

lemma sub_from_no_match:
  "pos \<le> length s \<Longrightarrow> first_match U pat s [pos..<Suc (length s)] = None \<Longrightarrow>
     sub_from U pat repl s pos = drop pos s"
  by (subst sub_from.simps) (simp del: upt_Suc)

lemma sub_from_match:
  "first_match U pat s [pos..<Suc (length s)] = Some (i, e) \<Longrightarrow> pos \<le> length s \<Longrightarrow> i < e \<Longrightarrow>
     sub_from U pat repl s pos = take (i - pos) (drop pos s) @ repl @ sub_from U pat repl s e"
  by (subst sub_from.simps) (simp del: upt_Suc)

lemma re_sub_no_match:
  "\<forall>i \<le> length s. match_ends U pat s i = [] \<Longrightarrow> re_sub U pat repl s = s"
  unfolding re_sub_def
  by (subst sub_from_no_match) (auto simp: first_match_None simp del: upt_Suc)

lemma match_ends_missing_char:
  "Chr p \<in> set pat \<Longrightarrow> \<forall>c\<in>set s. \<not> p c \<Longrightarrow> match_ends U pat s pos = []"
proof (induction pat arbitrary: pos)
  case Nil
  then show ?case by simp
next
  case (Cons a pat)
  show ?case
  proof (cases "a = Chr p")
    case True
    with Cons.prems(2) show ?thesis by auto
  next
    case False
    with Cons.prems have "Chr p \<in> set pat" by simp
    from Cons.IH[OF this Cons.prems(2)] have ih: "match_ends U pat s q = []" for q .
    show ?thesis by (cases a) (simp_all add: ih)
  qed
qed

lemma re_sub_missing_char:
  "Chr p \<in> set pat \<Longrightarrow> \<forall>c\<in>set s. \<not> p c \<Longrightarrow> re_sub U pat repl s = s"
  by (rule re_sub_no_match) (simp add: match_ends_missing_char)

lemma sub_from_Chr:
  "pos \<le> length s \<Longrightarrow>
   sub_from U [Chr p] [] s pos = filter (\<lambda>c. \<not> p c) (drop pos s)"
proof (induction "length s - pos" arbitrary: pos rule: less_induct)
  case less
  show ?case
  proof (cases "first_match U [Chr p] s [pos..<Suc (length s)]")
    case None
    have "\<not> p c" if "c \<in> set (drop pos s)" for c
    proof
      assume pc: "p c"
      from that obtain k where k: "k < length (drop pos s)" "drop pos s ! k = c"
        by (auto simp: in_set_conv_nth)
      then have "pos + k < length s" "s ! (pos + k) = c" by auto
      then have m: "match_ends U [Chr p] s (pos + k) = [Suc (pos + k)]"
        using pc by simp
      moreover have "pos + k \<in> set [pos..<Suc (length s)]"
        using \<open>pos + k < length s\<close> by simp
      ultimately show False using None unfolding first_match_None by fastforce
    qed
    then have "filter (\<lambda>c. \<not> p c) (drop pos s) = drop pos s"
      by (simp add: filter_id_conv)
    with None less.prems show ?thesis
      by (simp add: sub_from_no_match)
  next
    case (Some ie)
    obtain i e where ie: "ie = (i, e)" by (cases ie)
    from first_match_Some_upt[OF Some[unfolded ie]] obtain es where
      r: "pos \<le> i" "i < Suc (length s)"
      and n: "\<forall>j. pos \<le> j \<and> j < i \<longrightarrow> match_ends U [Chr p] s j = []"
      and m: "match_ends U [Chr p] s i = e # es" by blast
    from m have il: "i < length s" and pi: "p (s ! i)" and e: "e = Suc i"
      by (auto split: if_splits)
    have np: "\<not> p (s ! j)" if "pos \<le> j" "j < i" for j
      using n that il by (auto split: if_splits)
    have "\<not> p c" if "c \<in> set (take (i - pos) (drop pos s))" for c
    proof -
      from that obtain k where "k < i - pos" "k < length (drop pos s)" "take (i - pos) (drop pos s) ! k = c"
        by (auto simp: in_set_conv_nth)
      then have "s ! (pos + k) = c" "pos + k < i" using il by auto
      then show ?thesis using np[of "pos + k"] by auto
    qed
    then have f1: "filter (\<lambda>c. \<not> p c) (take (i - pos) (drop pos s)) = take (i - pos) (drop pos s)"
      by (simp add: filter_id_conv)
    have d: "drop pos s = take (i - pos) (drop pos s) @ s ! i # drop (Suc i) s"
      using r il by (metis Cons_nth_drop_Suc append_take_drop_id drop_drop le_add_diff_inverse2)
    have "Suc i \<le> length s" "length s - Suc i < length s - pos" using il r by auto
    from less.hyps[OF this(2) this(1)] have ih: "sub_from U [Chr p] [] s (Suc i) = filter (\<lambda>c. \<not> p c) (drop (Suc i) s)" .
    have "sub_from U [Chr p] [] s pos = take (i - pos) (drop pos s) @ sub_from U [Chr p] [] s (Suc i)"
      using Some ie e less.prems by (subst sub_from.simps) (simp del: upt_Suc)
    also have "\<dots> = filter (\<lambda>c. \<not> p c) (drop pos s)"
      using ih f1 pi by (subst (2) d) simp
    finally show ?thesis .
  qed
qed

lemma re_sub_Chr: "re_sub U [Chr p] [] s = filter (\<lambda>c. \<not> p c) s"
  unfolding re_sub_def by (subst sub_from_Chr) simp_all


section \<open>Description trimming: results\<close>

lemma sentence_end:
  "sentence_cut w \<noteq> [] \<and> last (sentence_cut w) = 46 \<and> length (sentence_cut w) \<le> Suc (length w)
     \<and> (46 \<in> set w \<longrightarrow> length (sentence_cut w) \<le> length w)"
proof (cases "46 \<in> set w")
  case True
  from rfind_present[OF this] obtain i where
    i: "rfind w [46] = int i" "i < length w" "w ! i = 46" by blast
  then have "sentence_cut w = take (Suc i) w"
    by (simp add: sentence_cut_def slice_to_def nat_add_distrib)
  also have "\<dots> = take i w @ [46]"
    using i by (simp add: take_Suc_conv_app_nth)
  finally have "sentence_cut w = take i w @ [46]" .
  with i True show ?thesis by simp
next
  case False
  then have "sentence_cut w = rstrip_chars w [46] @ [46]"
    by (simp add: sentence_cut_def rfind_absent)
  moreover have "length (rstrip_chars w [46]) \<le> length w"
    unfolding rstrip_chars_def by (metis length_dropWhile_le length_rev)
  ultimately show ?thesis using False by simp
qed

lemma combine_and_trim_shape:
  "combine_and_trim_description U description content
     = strip (sentence_cut (trim_window U description content))"
  by (simp add: combine_and_trim_description_def Let_def sentence_cut_def trim_window_def)

lemma length_trim_window: "length (trim_window U description content) \<le> 700"
  by (simp add: trim_window_def)

lemma combine_and_trim_length_le_701:
  "length (combine_and_trim_description U description content) \<le> 701"
proof -
  have "length (sentence_cut (trim_window U description content))
          \<le> Suc (length (trim_window U description content))"
    using sentence_end[of "trim_window U description content"] by simp
  with length_trim_window[of U description content]
  have "length (sentence_cut (trim_window U description content)) \<le> 701" by simp
  with length_strip[of "sentence_cut (trim_window U description content)"]
  show ?thesis by (simp add: combine_and_trim_shape)
qed

lemma combine_and_trim_length_with_period:
  "46 \<in> set (trim_window U description content) \<Longrightarrow>
     length (combine_and_trim_description U description content) \<le> 700"
proof -
  assume "46 \<in> set (trim_window U description content)"
  then have "length (sentence_cut (trim_window U description content))
          \<le> length (trim_window U description content)"
    using sentence_end[of "trim_window U description content"] by simp
  with length_trim_window[of U description content]
  have "length (sentence_cut (trim_window U description content)) \<le> 700" by simp
  with length_strip[of "sentence_cut (trim_window U description content)"]
  show ?thesis by (simp add: combine_and_trim_shape)
qed

lemma marker_pattern_head:
  "marker_pattern U = Chr (\<lambda>x. x = 8218) # tl (marker_pattern U)"
  by (simp add: marker_pattern_def chars_def)

lemma marker_absent:
  "8218 \<notin> set s \<Longrightarrow> re_sub U (marker_pattern U) [] s = s"
  by (rule re_sub_missing_char[where p = "\<lambda>x. x = 8218"])
     (auto simp: marker_pattern_def chars_def)


text \<open>
  C9: for every description and content, \<open>combine_and_trim_description\<close> returns a
  non-empty string whose last character is the full stop (code point 46); on the empty
  description and the empty content it returns the one-character string \<open>.\<close>.
\<close>

theorem combine_and_trim_ends_with_period:
  "combine_and_trim_description U description content \<noteq> []
     \<and> last (combine_and_trim_description U description content) = 46
     \<and> combine_and_trim_description U (PStr []) (PStr []) = [46]"
proof -
  have e: "sentence_cut w \<noteq> [] \<and> \<not> isspace (last (sentence_cut w))" for w
    using sentence_end[of w] by simp
  have "strip (sentence_cut w) \<noteq> [] \<and> last (strip (sentence_cut w)) = 46" for w
    using strip_keeps_last[of "sentence_cut w"] e[of w] sentence_end[of w] by simp
  moreover have "combine_and_trim_description U (PStr []) (PStr []) = [46]"
  proof -
    have "strip [32] = []" by (rule strip_all_space) (simp add: isspace_def)
    then have "trim_window U (PStr []) (PStr []) = []"
      by (simp add: trim_window_def marker_absent re_sub_Chr)
    moreover have "sentence_cut [] = [46]"
      by (simp add: sentence_cut_def rfind_absent rstrip_chars_def)
    moreover have "strip [46] = [46]" by (simp add: strip_id)
    ultimately show ?thesis by (simp add: combine_and_trim_shape)
  qed
  ultimately show ?thesis by (simp add: combine_and_trim_shape)
qed


text \<open>
  C3: the claimed bound of 700 characters fails. A description of 700 letters \<open>a\<close> and an
  empty content have no full stop in the 700-character window, so the fallback branch
  appends one behind the cut: the result has 701 characters.
\<close>

theorem combine_and_trim_overlong:
  "length (combine_and_trim_description U (PStr (replicate 700 97)) (PStr [])) = 701"
proof -
  have k: "keep_char 97" "\<not> isspace 97" by (simp_all add: keep_char_def isspace_def)
  have s1: "strip (replicate 700 97) = replicate 700 97"
    using k by (simp add: strip_id)
  have s2: "strip (replicate 700 97 @ [32]) = replicate 700 97"
    using k by (simp add: strip_def lstrip_def rstrip_def isspace_def)
  have w: "trim_window U (PStr (replicate 700 97)) (PStr []) = replicate 700 97"
    using k by (simp add: trim_window_def marker_absent re_sub_Chr s1 s2)
  have c: "sentence_cut (replicate 700 97) = replicate 700 97 @ [46]"
    by (simp add: sentence_cut_def rfind_absent rstrip_chars_def)
  have "strip (replicate 700 97 @ [46]) = replicate 700 97 @ [46]"
    using k by (simp add: strip_id hd_append)
  then show ?thesis by (simp add: combine_and_trim_shape w c)
qed


text \<open>
  C4: the marker pattern of the source file does not start with the ellipsis U+2026 but
  with the three code points U+201A, U+00C4, U+00B6. A content that ends with the marker
  \<open>\<dots> [+120 chars]\<close> as the news backend writes it (code point 8230) is therefore not
  stripped: the later character filter removes the ellipsis, the brackets and the plus
  sign, and \<open>120 chars\<close> stays in the result.
\<close>

theorem combine_and_trim_marker_residue:
  "combine_and_trim_description U (PStr (lit ''EV sales rise''))
       (PStr (lit ''Sales grew'' @ [8230] @ lit '' [+120 chars]''))
     = lit ''EV sales rise Sales grew 120 chars.''"
proof -
  let ?d = "lit ''EV sales rise''"
  let ?c = "lit ''Sales grew'' @ [8230] @ lit '' [+120 chars]''"
  have m: "re_sub U (marker_pattern U) [] ?c = ?c"
    by (rule marker_absent) simp
  have sd: "strip ?d = ?d" by (rule strip_id) (simp_all add: isspace_def)
  have sc: "strip ?c = ?c" by (rule strip_id) (simp_all add: isspace_def)
  have sj: "strip (?d @ [32] @ ?c) = ?d @ [32] @ ?c"
    by (rule strip_id) (simp_all add: isspace_def)
  have f: "filter keep_char (?d @ [32] @ ?c) = lit ''EV sales rise Sales grew 120 chars''"
    by (simp add: keep_char_def isspace_def)
  have w: "trim_window U (PStr ?d) (PStr ?c) = lit ''EV sales rise Sales grew 120 chars''"
    unfolding trim_window_def or_empty.simps m sd sc sj re_sub_Chr
    by (simp only: f simp_thms) simp
  have c: "sentence_cut (lit ''EV sales rise Sales grew 120 chars'')
             = lit ''EV sales rise Sales grew 120 chars.''"
    by (simp add: sentence_cut_def rfind_absent rstrip_chars_def)
  have s: "strip (lit ''EV sales rise Sales grew 120 chars.'')
             = lit ''EV sales rise Sales grew 120 chars.''"
    by (rule strip_id) (simp_all add: isspace_def)
  show ?thesis by (simp only: combine_and_trim_shape w c s)
qed

text \<open>
  The marker as the source file spells it is stripped (here with the ASCII tables), and
  the content of the specification's scenario, which has three full stops and no
  ellipsis, is cut at its last full stop.
\<close>

lemma marker_as_spelled_is_stripped:
  "re_sub ascii_db (marker_pattern ascii_db) []
      (lit ''Sales grew'' @ [8218, 196, 182] @ lit '' [+120 chars]'') = lit ''Sales grew''"
proof -
  let ?s = "lit ''Sales grew'' @ [8218, 196, 182] @ lit '' [+120 chars]''"
  have l: "length ?s = 26" by simp
  have fm: "first_match ascii_db (marker_pattern ascii_db) ?s [0..<Suc (length ?s)] = Some (10, 26)"
    by (simp add: marker_pattern_def chars_def ascii_db_def ascii_digit_def)
  have "sub_from ascii_db (marker_pattern ascii_db) [] ?s 26 = []"
    by (subst sub_from_no_match) (simp_all add: marker_pattern_def chars_def first_match_None)
  then show ?thesis
    unfolding re_sub_def by (subst sub_from_match[OF fm]) simp_all
qed


lemma combine_and_trim_scenario:
  "combine_and_trim_description U (PStr (lit ''EV sales rise'')) (PStr (lit ''... [+120 chars]''))
     = lit ''EV sales rise ...''"
proof -
  let ?d = "lit ''EV sales rise''"
  let ?c = "lit ''... [+120 chars]''"
  have m: "re_sub U (marker_pattern U) [] ?c = ?c"
    by (rule marker_absent) simp
  have sd: "strip ?d = ?d" by (rule strip_id) (simp_all add: isspace_def)
  have sc: "strip ?c = ?c" by (rule strip_id) (simp_all add: isspace_def)
  have sj: "strip (?d @ [32] @ ?c) = ?d @ [32] @ ?c"
    by (rule strip_id) (simp_all add: isspace_def)
  have f: "filter keep_char (?d @ [32] @ ?c) = lit ''EV sales rise ... 120 chars''"
    by (simp add: keep_char_def isspace_def)
  have w: "trim_window U (PStr ?d) (PStr ?c) = lit ''EV sales rise ... 120 chars''"
    unfolding trim_window_def or_empty.simps m sd sc sj re_sub_Chr
    by (simp only: f simp_thms) simp
  have r: "rfind (lit ''EV sales rise ..'' @ 46 # lit '' 120 chars'') [46] = 16"
    by (subst rfind_last) simp_all
  have c: "sentence_cut (lit ''EV sales rise ... 120 chars'') = lit ''EV sales rise ...''"
    using r by (simp add: sentence_cut_def slice_to_def)
  have s: "strip (lit ''EV sales rise ...'') = lit ''EV sales rise ...''"
    by (rule strip_id) (simp_all add: isspace_def)
  show ?thesis by (simp only: combine_and_trim_shape w c s)
qed


section \<open>Relevance filtering: results\<close>

lemma starts_at_Cons:
  "starts_at (c # w) s i \<longleftrightarrow> i < length s \<and> s ! i = c \<and> starts_at w s (Suc i)"
proof (cases "i < length s")
  case True
  then have "drop i s = s ! i # drop (Suc i) s"
    by (simp add: Cons_nth_drop_Suc)
  then show ?thesis using True by (simp add: starts_at_def)
next
  case False
  then show ?thesis by (simp add: starts_at_def)
qed

lemma match_ends_chars:
  "match_ends U (chars w @ ps) s i =
     (if starts_at w s i then match_ends U ps s (i + length w) else [])"
proof (induction w arbitrary: i)
  case Nil
  then show ?case by (simp add: chars_def starts_at_def)
next
  case (Cons c w)
  have "match_ends U (chars (c # w) @ ps) s i =
          (if i < length s \<and> s ! i = c then match_ends U (chars w @ ps) s (Suc i) else [])"
    by (simp add: chars_def)
  then show ?case by (simp add: Cons.IH starts_at_Cons)
qed

lemma starts_at_decomp:
  "i \<le> length s \<and> starts_at w s i \<longleftrightarrow> (\<exists>pre post. s = pre @ w @ post \<and> length pre = i)"
proof
  assume a: "i \<le> length s \<and> starts_at w s i"
  then have "take (length w) (drop i s) = w" by (simp add: starts_at_def)
  then have "s = take i s @ w @ drop (length w) (drop i s)"
    by (metis append_take_drop_id)
  moreover have "length (take i s) = i" using a by simp
  ultimately show "\<exists>pre post. s = pre @ w @ post \<and> length pre = i" by blast
next
  assume "\<exists>pre post. s = pre @ w @ post \<and> length pre = i"
  then show "i \<le> length s \<and> starts_at w s i" by (auto simp: starts_at_def)
qed

lemma word_boundary_append:
  "word_boundary U (l @ r) (length l) = boundary_between U l r"
proof -
  have "(l @ r) ! (length l - 1) = last l" if "l \<noteq> []"
    using that by (simp add: nth_append last_conv_nth)
  moreover have "(l @ r) ! length l = hd r" if "r \<noteq> []"
    using that by (simp add: nth_append hd_conv_nth)
  ultimately show ?thesis
    by (cases "l = []"; cases "r = []") (simp_all add: word_boundary_def boundary_between_def)
qed

lemma re_search_keyword:
  "re_search U (keyword_pattern w) s \<longleftrightarrow> spec_whole_word U w s"
proof -
  have m: "match_ends U (keyword_pattern w) s i \<noteq> [] \<longleftrightarrow>
        word_boundary U s i \<and> starts_at w s i \<and> word_boundary U s (i + length w)" for i
    using match_ends_chars[of U w "[WordB]" s i] by (simp add: keyword_pattern_def)
  have "re_search U (keyword_pattern w) s \<longleftrightarrow>
          (\<exists>i \<le> length s. match_ends U (keyword_pattern w) s i \<noteq> [])"
    by (auto simp: re_search_def first_match_None less_Suc_eq_le simp del: upt_Suc)
  also have "\<dots> \<longleftrightarrow> (\<exists>i. (i \<le> length s \<and> starts_at w s i)
                \<and> word_boundary U s i \<and> word_boundary U s (i + length w))"
    by (auto simp: m)
  also have "\<dots> \<longleftrightarrow> (\<exists>i pre post. s = pre @ w @ post \<and> length pre = i
                \<and> word_boundary U s i \<and> word_boundary U s (i + length w))"
    by (simp only: starts_at_decomp) blast
  also have "\<dots> \<longleftrightarrow> (\<exists>pre post. s = pre @ w @ post
                \<and> word_boundary U (pre @ (w @ post)) (length pre)
                \<and> word_boundary U ((pre @ w) @ post) (length (pre @ w)))"
    by auto
  also have "\<dots> \<longleftrightarrow> spec_whole_word U w s"
    by (simp only: word_boundary_append spec_whole_word_def)
  finally show ?thesis .
qed

lemma split_ws_Nil [simp]: "split_ws [] = []"
  by (subst split_ws.simps) simp

lemma split_ws_space: "isspace c \<Longrightarrow> split_ws (c # s) = split_ws s"
  by (subst split_ws.simps, subst (2) split_ws.simps) simp

lemma split_ws_word:
  "\<not> isspace c \<Longrightarrow>
     split_ws (c # s) = (c # takeWhile (\<lambda>c. \<not> isspace c) s) # split_ws (dropWhile (\<lambda>c. \<not> isspace c) s)"
  by (subst split_ws.simps) simp

lemma split_ws_all_space: "(\<forall>c\<in>set s. isspace c) \<Longrightarrow> split_ws s = []"
  by (induction s) (simp_all add: split_ws_space)

lemma split_ws_empty_iff: "split_ws s = [] \<longleftrightarrow> (\<forall>c\<in>set s. isspace c)"
proof
  show "split_ws s = [] \<Longrightarrow> \<forall>c\<in>set s. isspace c"
  proof (induction s)
    case Nil
    then show ?case by simp
  next
    case (Cons a s)
    then show ?case by (cases "isspace a") (simp_all add: split_ws_space split_ws_word)
  qed
qed (rule split_ws_all_space)

lemma ascii_db_simps [simp]:
  "lower ascii_db = ascii_lower"
  "isalnum ascii_db = ascii_alnum"
  "isdecimal ascii_db = ascii_digit"
  by (simp_all add: ascii_db_def)

lemma lower_fixes_whitespace_ascii: "lower_fixes_whitespace ascii_db"
proof -
  have "ascii_lower s = s" if "\<forall>c\<in>set s. isspace c" for s
    using that by (induction s) (auto simp: ascii_lower_def isspace_def)
  then show ?thesis by (simp add: lower_fixes_whitespace_def)
qed


lemma spec_keyword_Nil: "\<not> spec_keyword w []"
  by (auto simp: spec_keyword_def)

lemma spec_keyword_space:
  assumes "isspace c"
  shows "spec_keyword w (c # s) \<longleftrightarrow> spec_keyword w s"
proof
  assume k: "spec_keyword w (c # s)"
  then obtain pre post where w: "w \<noteq> []" "\<forall>c\<in>set w. \<not> isspace c"
    and d: "c # s = pre @ w @ post" and b: "pre = [] \<or> isspace (last pre)"
    and a: "post = [] \<or> isspace (hd post)"
    unfolding spec_keyword_def by blast
  have "pre \<noteq> []"
  proof
    assume "pre = []"
    with d w(1) have "hd w = c" by (cases w) auto
    with w assms show False by (cases w) auto
  qed
  then obtain pre' where p: "pre = c # pre'" using d by (cases pre) auto
  with d have "s = pre' @ w @ post" by simp
  moreover have "pre' = [] \<or> isspace (last pre')" using b p by (cases "pre' = []") auto
  ultimately show "spec_keyword w s" using w a unfolding spec_keyword_def by blast
next
  assume "spec_keyword w s"
  then obtain pre post where w: "w \<noteq> []" "\<forall>c\<in>set w. \<not> isspace c"
    and d: "s = pre @ w @ post" and b: "pre = [] \<or> isspace (last pre)"
    and a: "post = [] \<or> isspace (hd post)"
    unfolding spec_keyword_def by blast
  have "c # s = (c # pre) @ w @ post" using d by simp
  moreover have "isspace (last (c # pre))" using b assms by auto
  ultimately show "spec_keyword w (c # s)" using w a unfolding spec_keyword_def by blast
qed

lemma takeWhile_run:
  "\<forall>c\<in>set w. P c \<Longrightarrow> post = [] \<or> \<not> P (hd post) \<Longrightarrow> takeWhile P (w @ post) = w"
  by (cases post) (auto simp: takeWhile_append)

lemma spec_keyword_word:
  assumes "\<not> isspace c"
  shows "spec_keyword w (c # s) \<longleftrightarrow>
           w = c # takeWhile (\<lambda>c. \<not> isspace c) s
             \<or> spec_keyword w (dropWhile (\<lambda>c. \<not> isspace c) s)"
proof -
  let ?P = "\<lambda>c. \<not> isspace c"
  let ?w0 = "c # takeWhile ?P s" and ?s2 = "dropWhile ?P s"
  have full: "c # s = ?w0 @ ?s2" by simp
  have w0: "\<forall>x\<in>set ?w0. ?P x" using assms by (auto dest: set_takeWhileD)
  have s2: "?s2 = [] \<or> isspace (hd ?s2)" using hd_dropWhile[of ?P s] by auto
  show ?thesis
  proof
    assume "spec_keyword w (c # s)"
    then obtain pre post where w: "w \<noteq> []" "\<forall>c\<in>set w. \<not> isspace c"
      and d: "c # s = pre @ w @ post" and b: "pre = [] \<or> isspace (last pre)"
      and a: "post = [] \<or> isspace (hd post)"
      unfolding spec_keyword_def by blast
    show "w = ?w0 \<or> spec_keyword w ?s2"
    proof (cases "pre = []")
      case True
      have "pre @ (w @ post) = ?w0 @ ?s2" by (rule d[symmetric, THEN trans, OF full])
      with True have e: "w @ post = ?w0 @ ?s2" by (simp only: append_Nil)
      have "takeWhile ?P (w @ post) = w" using w(2) a by (intro takeWhile_run) auto
      moreover have "takeWhile ?P (?w0 @ ?s2) = ?w0" using w0 s2 by (intro takeWhile_run) auto
      ultimately have "w = ?w0" using e by metis
      then show ?thesis ..
    next
      case False
      with b have lp: "isspace (last pre)" by simp
      have "pre @ (w @ post) = ?w0 @ ?s2" by (rule d[symmetric, THEN trans, OF full])
      then obtain us where
        "(pre = ?w0 @ us \<and> us @ w @ post = ?s2) \<or> (pre @ us = ?w0 \<and> w @ post = us @ ?s2)"
        unfolding append_eq_append_conv2 by blast
      then show ?thesis
      proof
        assume h: "pre = ?w0 @ us \<and> us @ w @ post = ?s2"
        have "us \<noteq> []"
        proof
          assume "us = []"
          with h have "?s2 = w @ post" by simp
          with s2 w show False by (cases w) auto
        qed
        with h lp have "isspace (last us)" by simp
        with h w a have "spec_keyword w ?s2"
          unfolding spec_keyword_def by (metis (no_types))
        then show ?thesis ..
      next
        assume h: "pre @ us = ?w0 \<and> w @ post = us @ ?s2"
        with False have "last pre \<in> set ?w0"
          by (metis last_in_set set_append UnI1)
        with w0 lp show ?thesis by blast
      qed
    qed
  next
    assume "w = ?w0 \<or> spec_keyword w ?s2"
    then show "spec_keyword w (c # s)"
    proof
      assume e: "w = ?w0"
      have "c # s = [] @ w @ ?s2" using e by simp
      with w0 s2 e show ?thesis unfolding spec_keyword_def by blast
    next
      assume "spec_keyword w ?s2"
      then obtain pre post where w: "w \<noteq> []" "\<forall>c\<in>set w. \<not> isspace c"
        and d: "?s2 = pre @ w @ post" and b: "pre = [] \<or> isspace (last pre)"
        and a: "post = [] \<or> isspace (hd post)"
        unfolding spec_keyword_def by blast
      have "pre \<noteq> []"
      proof
        assume "pre = []"
        with d have "?s2 = w @ post" by simp
        with s2 w show False by (cases w) auto
      qed
      with b have "isspace (last (?w0 @ pre))" by simp
      moreover have "c # s = (?w0 @ pre) @ w @ post" using d full by simp
      ultimately show ?thesis using w a unfolding spec_keyword_def by blast
    qed
  qed
qed

lemma split_ws_keywords: "w \<in> set (split_ws s) \<longleftrightarrow> spec_keyword w s"
proof (induction s rule: length_induct)
  case (1 s)
  show ?case
  proof (cases s)
    case Nil
    then show ?thesis by (simp add: spec_keyword_Nil)
  next
    case (Cons c s')
    show ?thesis
    proof (cases "isspace c")
      case True
      with 1 Cons show ?thesis by (simp add: split_ws_space spec_keyword_space)
    next
      case False
      have "length (dropWhile (\<lambda>c. \<not> isspace c) s') < length s"
        using Cons length_dropWhile_le[of "\<lambda>c. \<not> isspace c" s'] by simp
      with 1 have "w \<in> set (split_ws (dropWhile (\<lambda>c. \<not> isspace c) s'))
          \<longleftrightarrow> spec_keyword w (dropWhile (\<lambda>c. \<not> isspace c) s')" by blast
      with False Cons show ?thesis
        by (simp add: split_ws_word spec_keyword_word)
    qed
  qed
qed

lemma no_keywords_iff: "(\<forall>w. \<not> spec_keyword w s) \<longleftrightarrow> (\<forall>c\<in>set s. isspace c)"
proof -
  have "(\<forall>w. \<not> spec_keyword w s) \<longleftrightarrow> set (split_ws s) = {}"
    by (simp only: split_ws_keywords[symmetric]) auto
  then show ?thesis by (simp add: split_ws_empty_iff)
qed

text \<open>A concrete article and topic: the title \<open>EV surge\<close> and the topic \<open>ev\<close>.\<close>

lemma example_keywords: "split_ws (lower ascii_db (lit ''ev'')) = [lit ''ev'']"
  by (simp add: ascii_lower_def split_ws_word isspace_def)

lemma example_text:
  "lower ascii_db (fmt (dget [''title'' \<mapsto> PStr (lit ''EV surge'')] ''title'') @ [32]
      @ fmt (dget [''title'' \<mapsto> PStr (lit ''EV surge'')] ''description'') @ [32]
      @ fmt (dget [''title'' \<mapsto> PStr (lit ''EV surge'')] ''content''))
    = [] @ lit ''ev'' @ lit '' surge  ''"
  by (simp add: ascii_lower_def dget_def)

lemma example_whole_word:
  "spec_whole_word ascii_db (lit ''ev'') ([] @ lit ''ev'' @ lit '' surge  '')"
  unfolding spec_whole_word_def
  by (intro exI[of _ "[]"] exI[of _ "lit '' surge  ''"])
     (simp add: boundary_between_def is_word_def ascii_alnum_def)

lemma example_relevant:
  "is_relevant ascii_db [''title'' \<mapsto> PStr (lit ''EV surge'')] (lit ''ev'')"
proof -
  have "is_relevant ascii_db [''title'' \<mapsto> PStr (lit ''EV surge'')] (lit ''ev'')
          = list_all (\<lambda>w. spec_whole_word ascii_db w ([] @ lit ''ev'' @ lit '' surge  ''))
              [lit ''ev'']"
    by (simp only: is_relevant_def Let_def re_search_keyword example_keywords example_text)
  also have "\<dots>" using example_whole_word by (simp only: list_all_iff list.set ball_simps)
  finally show ?thesis .
qed

text \<open>
  C1: \<open>is_relevant\<close> holds exactly when every keyword (whitespace-delimited word) of
  the lower-cased topic occurs as a whole word, with a word boundary on both sides, in the
  lower-cased text made of the title, the description and the content. The text is the
  one the f-string builds: the three fields with a space between them, a missing field
  empty, a \<open>None\<close> field printed as \<open>None\<close>.
\<close>

theorem is_relevant_iff:
  "is_relevant U A T \<longleftrightarrow>
     (\<forall>w. spec_keyword w (lower U T) \<longrightarrow>
        spec_whole_word U w
          (lower U (fmt (dget A ''title'') @ [32] @ fmt (dget A ''description'') @ [32]
                     @ fmt (dget A ''content''))))"
  by (simp add: is_relevant_def Let_def list_all_iff Ball_def re_search_keyword split_ws_keywords)

text \<open>The same at a concrete article whose title has the keyword.\<close>

theorem is_relevant_iff_witness:
  "is_relevant ascii_db [''title'' \<mapsto> PStr (lit ''EV surge'')] (lit ''ev'')
     \<and> spec_keyword (lit ''ev'') (lower ascii_db (lit ''ev''))"
proof -
  have k: "spec_keyword w (lower ascii_db (lit ''ev'')) \<longleftrightarrow> w = lit ''ev''" for w
    by (simp only: split_ws_keywords[symmetric] example_keywords list.set
          insert_iff empty_iff simp_thms)
  have "is_relevant ascii_db [''title'' \<mapsto> PStr (lit ''EV surge'')] (lit ''ev'')
          = (\<forall>w. w = lit ''ev'' \<longrightarrow>
               spec_whole_word ascii_db w ([] @ lit ''ev'' @ lit '' surge  ''))"
    by (simp only: is_relevant_iff k example_text)
  also have "\<dots>" using example_whole_word by (simp only: simp_thms)
  finally have "is_relevant ascii_db [''title'' \<mapsto> PStr (lit ''EV surge'')] (lit ''ev'')" .
  moreover have "spec_keyword (lit ''ev'') (lower ascii_db (lit ''ev''))"
    by (simp only: k)
  ultimately show ?thesis by (rule conjI)
qed


section \<open>Fetching news: results\<close>

lemma dget_kept_article:
  "dget (kept_article a) ''title'' = dget (art_fields a) ''title''"
  "dget (kept_article a) ''description'' = dget (art_fields a) ''description''"
  "dget (kept_article a) ''content'' = dget (art_fields a) ''content''"
  by (simp_all add: kept_article_def dget_def)

lemma is_relevant_kept_article:
  "is_relevant U (kept_article a) topic = is_relevant U (art_fields a) topic"
  by (simp only: is_relevant_def dget_kept_article)

lemma collect_eq:
  "collect U topic acc as =
     acc @ map kept_article (filter (\<lambda>a. is_relevant U (art_fields a) topic) as)"
  by (induction as arbitrary: acc) simp_all

lemma get_news_Some:
  "newsapi (get_everything_args topic) = Some resp \<Longrightarrow>
     get_news U newsapi topic =
       Some (take 5 (if status resp = Some (PStr (lit ''ok''))
                     then map kept_article
                            (filter (\<lambda>a. is_relevant U (art_fields a) topic)
                               (case articles resp of None \<Rightarrow> [] | Some as \<Rightarrow> as))
                     else []))"
  by (simp add: get_news_def collect_eq del: lit_simps)


lemma example_kept_relevant: "is_relevant ascii_db (art_fields example_raw) (lit ''ev'')"
  using example_relevant by (simp only: example_raw_def raw_article.simps)

lemma example_get_news:
  "get_news ascii_db example_backend (lit ''ev'') = Some [kept_article example_raw]"
proof -
  have "get_news ascii_db example_backend (lit ''ev'')
          = Some (take 5 (map kept_article
                    (filter (\<lambda>a. is_relevant ascii_db (art_fields a) (lit ''ev'')) [example_raw])))"
    by (subst get_news_Some[where resp = "\<lparr> status = Some (PStr (lit ''ok'')), articles = Some [example_raw] \<rparr>"])
       (simp_all add: example_backend_def del: lit_simps)
  also have "\<dots> = Some [kept_article example_raw]"
    using example_kept_relevant by simp
  finally show ?thesis .
qed

text \<open>
  C2: whenever the backend answers, \<open>get_news\<close> returns a list of at most 5 articles, and
  every article of the list satisfies \<open>is_relevant\<close> for the topic.
\<close>

theorem get_news_at_most_five_relevant:
  assumes "newsapi (get_everything_args topic) = Some resp"
  shows "\<exists>found. get_news U newsapi topic = Some found \<and> length found \<le> 5
           \<and> (\<forall>a\<in>set found. is_relevant U a topic)"
proof -
  let ?all = "if status resp = Some (PStr (lit ''ok''))
              then map kept_article
                     (filter (\<lambda>a. is_relevant U (art_fields a) topic)
                        (case articles resp of None \<Rightarrow> [] | Some as \<Rightarrow> as))
              else []"
  have "is_relevant U a topic" if "a \<in> set ?all" for a
    using that by (auto simp: is_relevant_kept_article split: if_splits simp del: lit_simps)
  then have "\<forall>a\<in>set (take 5 ?all). is_relevant U a topic"
    by (meson in_set_takeD)
  moreover have "length (take 5 ?all) \<le> 5" by simp
  moreover have "get_news U newsapi topic = Some (take 5 ?all)"
    using assms by (rule get_news_Some)
  ultimately show ?thesis by blast
qed


theorem get_news_at_most_five_relevant_witness:
  "get_news ascii_db example_backend (lit ''ev'') = Some [kept_article example_raw]
     \<and> is_relevant ascii_db (kept_article example_raw) (lit ''ev'')"
proof -
  have "example_backend (get_everything_args (lit ''ev''))
          = Some \<lparr> status = Some (PStr (lit ''ok'')), articles = Some [example_raw] \<rparr>"
    by (simp add: example_backend_def)
  from get_news_at_most_five_relevant[where newsapi = example_backend and topic = "lit ''ev''"
      and U = ascii_db, OF this]
  obtain found where "get_news ascii_db example_backend (lit ''ev'') = Some found"
    and r: "\<forall>a\<in>set found. is_relevant ascii_db a (lit ''ev'')" by blast
  with example_get_news have "found = [kept_article example_raw]" by simp
  with r example_get_news show ?thesis by simp
qed

text \<open>
  C8: for a topic without keywords (empty or whitespace only) \<open>is_relevant\<close> holds for
  every article, so the filter of \<open>get_news\<close> drops nothing: the result is the first
  five of all the articles of an \<open>ok\<close> answer.
\<close>

theorem blank_topic_keeps_every_article:
  assumes "lower_fixes_whitespace U" and "\<forall>c\<in>set topic. isspace c"
  shows "is_relevant U article topic
     \<and> (newsapi (get_everything_args topic) = Some resp \<longrightarrow>
          get_news U newsapi topic =
            Some (take 5 (if status resp = Some (PStr (lit ''ok''))
                          then map kept_article (case articles resp of None \<Rightarrow> [] | Some as \<Rightarrow> as)
                          else [])))"
proof -
  from assms have "lower U topic = topic" by (simp add: lower_fixes_whitespace_def)
  with assms(2) have "split_ws (lower U topic) = []" by (simp add: split_ws_all_space)
  then have r: "is_relevant U a topic" for a by (simp add: is_relevant_def)
  then show ?thesis by (auto simp: get_news_Some simp del: lit_simps)
qed


theorem blank_topic_keeps_every_article_witness:
  "is_relevant ascii_db Map.empty [32, 9]
     \<and> get_news ascii_db example_backend [32, 9] = Some [kept_article example_raw]"
proof -
  have h: "\<forall>c\<in>set [32, 9]. isspace c" by (simp add: isspace_def)
  have b: "example_backend (get_everything_args [32, 9])
          = Some \<lparr> status = Some (PStr (lit ''ok'')), articles = Some [example_raw] \<rparr>"
    by (simp add: example_backend_def)
  from blank_topic_keeps_every_article[where article = Map.empty and newsapi = example_backend
      and resp = "\<lparr> status = Some (PStr (lit ''ok'')), articles = Some [example_raw] \<rparr>",
      OF lower_fixes_whitespace_ascii h]
  show ?thesis using b by (simp del: lit_simps)
qed


section \<open>Facts about splitting\<close>

lemma starts_at_Nil [simp]: "starts_at [] s i"
  by (simp add: starts_at_def)

lemma starts_at_Suc_Cons [simp]: "starts_at sep (c # s) (Suc i) = starts_at sep s i"
  by (simp add: starts_at_def)

lemma contains_iff: "contains sep s \<longleftrightarrow> (\<exists>i \<le> length s. starts_at sep s i)"
  by (auto simp: contains_def list_ex_iff less_Suc_eq_le simp del: upt_Suc)

lemma contains_Nil [simp]: "contains sep [] \<longleftrightarrow> sep = []"
  by (auto simp: contains_iff starts_at_def)

lemma contains_Cons:
  "contains sep (c # s) \<longleftrightarrow> starts_at sep (c # s) 0 \<or> contains sep s"
proof -
  have "(\<exists>i \<le> Suc (length s). starts_at sep (c # s) i)
          \<longleftrightarrow> starts_at sep (c # s) 0 \<or> (\<exists>i \<le> length s. starts_at sep (c # s) (Suc i))"
    by (metis Suc_le_mono le0 not0_implies_Suc)
  then show ?thesis by (simp add: contains_iff)
qed

lemma starts_at_0: "starts_at sep s 0 \<longleftrightarrow> take (length sep) s = sep"
  by (simp add: starts_at_def)

lemma contains_drop: "contains sep (drop n s) \<Longrightarrow> contains sep s"
proof (induction s arbitrary: n)
  case Nil
  then show ?case by simp
next
  case (Cons a s)
  then show ?case by (cases n) (auto simp: contains_Cons)
qed

lemma contains_subset: "contains sep s \<Longrightarrow> set sep \<subseteq> set s"
proof -
  assume "contains sep s"
  then obtain i where "take (length sep) (drop i s) = sep"
    by (auto simp: contains_iff starts_at_def)
  then have "set sep \<subseteq> set (drop i s)" by (metis set_take_subset)
  then show ?thesis by (meson set_drop_subset subset_trans)
qed

lemma contains_mid: "contains sep (pre @ sep @ post)"
  unfolding contains_iff by (rule exI[of _ "length pre"]) (simp add: starts_at_def)

lemma split_from_nonempty: "split_from sep cur s \<noteq> []"
  by (induction sep cur s rule: split_from.induct) simp_all

lemma split_from_absent: "\<not> contains sep s \<Longrightarrow> split_from sep cur s = [rev cur @ s]"
proof (induction s arbitrary: cur)
  case Nil
  then show ?case by simp
next
  case (Cons a s)
  then have "\<not> starts_at sep (a # s) 0" "\<not> contains sep s"
    by (simp_all add: contains_Cons)
  with Cons.IH[of "a # cur"] show ?case by simp
qed

lemma split_from_two:
  "sep \<noteq> [] \<Longrightarrow> contains sep s \<Longrightarrow> 2 \<le> length (split_from sep cur s)"
proof (induction sep cur s rule: split_from.induct)
  case (1 sep cur)
  then show ?case by simp
next
  case (2 sep cur c cs)
  show ?case
  proof (cases "starts_at sep (c # cs) 0")
    case True
    with 2(3) have "split_from sep cur (c # cs)
        = rev cur # split_from sep [] (drop (length sep) (c # cs))" by simp
    moreover have "1 \<le> length (split_from sep [] (drop (length sep) (c # cs)))"
      using split_from_nonempty[of sep "[]" "drop (length sep) (c # cs)"]
      by (simp add: Suc_le_eq)
    ultimately show ?thesis by simp
  next
    case False
    with 2(4) have "contains sep cs" by (simp add: contains_Cons)
    with 2(2)[OF _ 2(3)] False show ?thesis by simp
  qed
qed

lemma index_0: "xs \<noteq> [] \<Longrightarrow> index xs 0 = Some (hd xs)"
  by (cases xs) (simp_all add: index_def)

lemma index_split_0: "index (split_sep s sep) 0 = Some (hd (split_sep s sep))"
  by (simp add: index_0 split_sep_def split_from_nonempty)

lemma index_split_1:
  "sep \<noteq> [] \<Longrightarrow> contains sep s \<Longrightarrow> index (split_sep s sep) 1 = Some (split_sep s sep ! 1)"
  using split_from_two[of sep s "[]"] by (simp add: index_def split_sep_def)

lemma split_from_first:
  "sep \<noteq> [] \<Longrightarrow> \<forall>i<length pre. \<not> starts_at sep (pre @ sep @ rest) i \<Longrightarrow>
     split_from sep cur (pre @ sep @ rest) = (rev cur @ pre) # split_from sep [] rest"
proof (induction pre arbitrary: cur)
  case Nil
  then obtain c w where s: "sep = c # w" by (cases sep) auto
  have "starts_at sep (sep @ rest) 0" by (simp add: starts_at_0)
  then show ?case using s by auto
next
  case (Cons p pre)
  from Cons.prems(2) have "\<not> starts_at sep (p # pre @ sep @ rest) 0" by auto
  moreover have "\<forall>i<length pre. \<not> starts_at sep (pre @ sep @ rest) i"
    using Cons.prems(2) by fastforce
  ultimately show ?case using Cons.IH[OF Cons.prems(1), of "p # cur"] by simp
qed



lemma split_sep_absent: "\<not> contains sep s \<Longrightarrow> split_sep s sep = [s]"
  by (simp add: split_sep_def split_from_absent)


section \<open>Summarising: results\<close>

lemma lit_nonempty: "lit (c # cs) \<noteq> []"
  by simp

lemma index_split_Suc0:
  "sep \<noteq> [] \<Longrightarrow> contains sep s \<Longrightarrow>
     index (split_sep s sep) (Suc 0) = Some (split_sep s sep ! Suc 0)"
  using index_split_1[of sep s] by simp

lemma bind_if:
  "Option.bind (if c then a else b) f = (if c then Option.bind a f else Option.bind b f)"
  by simp

lemma extract_fields_unfold:
  fixes U result
  defines "h \<equiv> if contains (lit ''Headline:'') result \<and> contains (lit ''Summary:'') result
                then strip (hd (split_sep (split_sep result (lit ''Headline:'') ! 1) (lit ''Summary:'')))
                else lit ''Headline unavailable''"
  defines "s1 \<equiv> if contains (lit ''Summary:'') result
                 then (if contains (lit ''Tag:'') result
                       then strip (hd (split_sep (split_sep result (lit ''Summary:'') ! 1) (lit ''Tag:'')))
                       else strip (split_sep result (lit ''Summary:'') ! 1))
                 else lit ''Summary unavailable''"
  defines "s2 \<equiv> if contains (lit ''Tags:'') s1 then strip (hd (split_sep s1 (lit ''Tags:''))) else s1"
  defines "t \<equiv> if contains (lit ''Tags:'') result
                then take 3 (map strip (filter (\<lambda>tag. strip tag \<noteq> [])
                        (split_sep (strip (split_sep result (lit ''Tags:'') ! 1)) [44])))
                else [lit ''General'']"
  shows "extract_fields U result =
           Some \<lparr> headline = h,
                  summary = re_sub U tags_word_pattern [] (re_sub U tags_colon_pattern [] s2),
                  tags = t \<rparr>"
  unfolding extract_fields_def h_def s1_def s2_def t_def
  by (simp add: index_split_0 index_split_Suc0 lit_nonempty Let_def bind_if del: lit_simps)

lemma summarize_article_tool_eq:
  "chain_run st (truncated_text U title description content) = (answer, st1) \<Longrightarrow>
     summarize_article_tool U chain_run st title description content
       = (case Option.bind answer (extract_fields U) of None \<Rightarrow> fallback | Some r \<Rightarrow> r, st1)"
  by (simp add: summarize_article_tool_def truncated_text_def Let_def del: lit_simps)

lemma summarize_on_answer:
  "chain_run st (truncated_text U title description content) = (Some result, st1) \<Longrightarrow>
     extract_fields U result = Some r \<Longrightarrow>
     fst (summarize_article_tool U chain_run st title description content) = r"
  by (simp add: summarize_article_tool_eq)


lemma set_strip: "set (strip s) \<subseteq> set s"
proof -
  have "set (rstrip t) \<subseteq> set t" for t
    unfolding rstrip_def by (metis set_dropWhileD set_rev subsetI)
  moreover have "set (lstrip s) \<subseteq> set s"
    unfolding lstrip_def by (meson set_dropWhileD subsetI)
  ultimately show ?thesis unfolding strip_def by blast
qed

lemma split_comma_pieces:
  "\<forall>x\<in>set s. x = 44 \<or> isspace x \<Longrightarrow> \<forall>x\<in>set cur. isspace x \<Longrightarrow>
     \<forall>p\<in>set (split_from [44] cur s). \<forall>x\<in>set p. isspace x"
proof (induction s arbitrary: cur)
  case Nil
  then show ?case by simp
next
  case (Cons a s)
  show ?case
  proof (cases "a = 44")
    case True
    then have "split_from [44] cur (a # s) = rev cur # split_from [44] [] s"
      by (simp add: starts_at_0)
    with Cons.IH[of "[]"] Cons.prems show ?thesis by simp
  next
    case False
    then have "split_from [44] cur (a # s) = split_from [44] (a # cur) s"
      by (simp add: starts_at_0)
    with Cons.IH[of "a # cur"] Cons.prems False show ?thesis by simp
  qed
qed

lemma tags_colon_no_t:
  "\<forall>c\<in>set s. c \<noteq> 84 \<and> c \<noteq> 116 \<Longrightarrow> re_sub U tags_colon_pattern [] s = s"
  by (rule re_sub_missing_char[where p = "\<lambda>c. c \<in> set [84, 116]"])
     (auto simp: tags_colon_pattern_def one_of_def)

lemma tags_word_no_t:
  "\<forall>c\<in>set s. c \<noteq> 84 \<and> c \<noteq> 116 \<Longrightarrow> re_sub U tags_word_pattern [] s = s"
  by (rule re_sub_missing_char[where p = "\<lambda>c. c \<in> set [84, 116]"])
     (auto simp: tags_word_pattern_def one_of_def)

lemma default_summary_kept:
  "re_sub U tags_word_pattern [] (re_sub U tags_colon_pattern [] (lit ''Summary unavailable''))
     = lit ''Summary unavailable''"
  by (subst tags_colon_no_t, simp, subst tags_word_no_t, simp, rule refl)

lemma default_summary_no_tags: "\<not> contains (lit ''Tags:'') (lit ''Summary unavailable'')"
proof
  assume "contains (lit ''Tags:'') (lit ''Summary unavailable'')"
  from contains_subset[OF this] show False by simp
qed


lemma extract_headline_default:
  "\<not> (contains (lit ''Headline:'') result \<and> contains (lit ''Summary:'') result) \<Longrightarrow>
     extract_fields U result = Some r \<Longrightarrow> headline r = lit ''Headline unavailable''"
  by (auto simp: extract_fields_unfold simp del: lit_simps)

lemma extract_summary_default:
  "\<not> contains (lit ''Summary:'') result \<Longrightarrow>
     extract_fields U result = Some r \<Longrightarrow> summary r = lit ''Summary unavailable''"
  by (auto simp: extract_fields_unfold default_summary_no_tags default_summary_kept
        simp del: lit_simps)

lemma extract_tags_default:
  "\<not> contains (lit ''Tags:'') result \<Longrightarrow>
     extract_fields U result = Some r \<Longrightarrow> tags r = [lit ''General'']"
  by (auto simp: extract_fields_unfold simp del: lit_simps)

lemma extract_fields_total: "\<exists>r. extract_fields U result = Some r"
  by (simp add: extract_fields_unfold del: lit_simps)



lemma absent_by_char: "c \<in> set sep \<Longrightarrow> c \<notin> set s \<Longrightarrow> \<not> contains sep s"
  using contains_subset by blast

lemma tool_result_eqI:
  "headline r = h \<Longrightarrow> summary r = s \<Longrightarrow> tags r = t \<Longrightarrow>
     (r :: tool_result) = \<lparr> headline = h, summary = s, tags = t \<rparr>"
  by (cases r) simp



lemma hello_no_markers:
  "\<not> contains (lit ''Headline:'') (lit ''hello'')"
  "\<not> contains (lit ''Summary:'') (lit ''hello'')"
  "\<not> contains (lit ''Tags:'') (lit ''hello'')"
  by (rule absent_by_char[of 72], simp, simp, rule absent_by_char[of 83], simp, simp,
      rule absent_by_char[of 84], simp, simp)

lemma always_answer_run:
  "always_answer r () (truncated_text U title description content) = (Some r, ())"
  by (simp add: always_answer_def)





text \<open>
  C6: an answer without any marker does not give the fallback triple. The answer
  \<open>hello\<close> gives the summary \<open>Summary unavailable\<close>, not the longer text of the
  fallback triple.
\<close>

theorem no_markers_counterexample:
  "fst (summarize_article_tool ascii_db (always_answer (lit ''hello'')) ()
      (PStr []) (PStr []) (PStr [])) \<noteq> fallback"
proof -
  obtain r where r: "extract_fields ascii_db (lit ''hello'') = Some r"
    using extract_fields_total by blast
  have "summary r = lit ''Summary unavailable''"
    using hello_no_markers(2) r by (rule extract_summary_default)
  moreover have "fst (summarize_article_tool ascii_db (always_answer (lit ''hello'')) ()
      (PStr []) (PStr []) (PStr [])) = r"
    using always_answer_run r by (rule summarize_on_answer)
  ultimately show ?thesis by (auto simp: fallback_def)
qed


text \<open>
  C6, as the code has it: when the answer of the model has none of the markers
  \<open>Headline:\<close>, \<open>Summary:\<close>, \<open>Tags:\<close>, the result is the triple of the three
  per-field defaults: \<open>Headline unavailable\<close>, \<open>Summary unavailable\<close> and the one tag
  \<open>General\<close>.
\<close>

theorem no_markers_gives_field_defaults:
  assumes "chain_run st (truncated_text U title description content) = (Some result, st1)"
    and "\<not> contains (lit ''Headline:'') result"
    and "\<not> contains (lit ''Summary:'') result"
    and "\<not> contains (lit ''Tags:'') result"
  shows "fst (summarize_article_tool U chain_run st title description content)
           = \<lparr> headline = lit ''Headline unavailable'', summary = lit ''Summary unavailable'',
               tags = [lit ''General''] \<rparr>"
proof -
  obtain r where r: "extract_fields U result = Some r"
    using extract_fields_total by blast
  have "r = \<lparr> headline = lit ''Headline unavailable'', summary = lit ''Summary unavailable'',
               tags = [lit ''General''] \<rparr>"
    using assms(2-4) r
    by (intro tool_result_eqI extract_headline_default extract_summary_default
          extract_tags_default) simp_all
  moreover have "fst (summarize_article_tool U chain_run st title description content) = r"
    using assms(1) r by (rule summarize_on_answer)
  ultimately show ?thesis by simp
qed

theorem no_markers_gives_field_defaults_witness:
  "fst (summarize_article_tool ascii_db (always_answer (lit ''hello'')) ()
      (PStr []) (PStr []) (PStr []))
     = \<lparr> headline = lit ''Headline unavailable'', summary = lit ''Summary unavailable'',
         tags = [lit ''General''] \<rparr>"
  by (rule no_markers_gives_field_defaults[where chain_run = "always_answer (lit ''hello'')" and st = "()"
          and U = ascii_db and title = "PStr []" and description = "PStr []" and content = "PStr []",
          OF always_answer_run hello_no_markers])


text \<open>
  C10: when the answer has the marker \<open>Tags:\<close> (its first occurrence behind \<open>pre\<close>) and
  only commas and whitespace behind it, the tags are the empty list, not the default
  \<open>General\<close>. The answer \<open>Tags: , ,\<close> is one of them, so such an answer exists.
\<close>

theorem tags_empty_after_blank_marker:
  assumes "chain_run st (truncated_text U title description content)
             = (Some (pre @ lit ''Tags:'' @ rest), st1)"
    and "\<forall>i<length pre. \<not> starts_at (lit ''Tags:'') (pre @ lit ''Tags:'' @ rest) i"
    and "\<forall>x\<in>set rest. x = 44 \<or> isspace x"
  shows "tags (fst (summarize_article_tool U chain_run st title description content)) = []"
proof -
  let ?T = "lit ''Tags:''"
  let ?res = "pre @ ?T @ rest"
  obtain r where r: "extract_fields U ?res = Some r"
    using extract_fields_total by blast
  have c: "contains ?T ?res" by (rule contains_mid)
  have "84 \<notin> set rest" using assms(3) by (auto simp: isspace_def)
  then have "\<not> contains ?T rest" by (intro absent_by_char[of 84]) simp_all
  then have "split_sep rest ?T = [rest]" by (rule split_sep_absent)
  moreover have "split_sep ?res ?T = pre # split_sep rest ?T"
    unfolding split_sep_def using split_from_first[OF _ assms(2), of "[]"] by simp
  ultimately have s: "split_sep ?res ?T ! 1 = rest" by simp
  have "\<forall>x\<in>set (strip rest). x = 44 \<or> isspace x"
    using assms(3) set_strip[of rest] by blast
  then have "\<forall>p\<in>set (split_sep (strip rest) [44]). \<forall>x\<in>set p. isspace x"
    unfolding split_sep_def by (intro split_comma_pieces) simp_all
  then have "filter (\<lambda>tag. strip tag \<noteq> []) (split_sep (strip rest) [44]) = []"
    by (simp add: filter_empty_conv strip_all_space)
  with r c s have "tags r = []"
    by (auto simp: extract_fields_unfold simp del: lit_simps)
  moreover have "fst (summarize_article_tool U chain_run st title description content) = r"
    using assms(1) r by (rule summarize_on_answer)
  ultimately show ?thesis by simp
qed

theorem tags_empty_after_blank_marker_witness:
  "tags (fst (summarize_article_tool ascii_db (always_answer ([] @ lit ''Tags:'' @ lit '' , ,'')) ()
      (PStr []) (PStr []) (PStr []))) = []
   \<and> contains (lit ''Tags:'') ([] @ lit ''Tags:'' @ lit '' , ,'')"
proof -
  have "\<forall>i<length ([] :: str). \<not> starts_at (lit ''Tags:'') ([] @ lit ''Tags:'' @ lit '' , ,'') i"
    by simp
  moreover have "\<forall>x\<in>set (lit '' , ,''). x = 44 \<or> isspace x"
    by (simp add: isspace_def)
  ultimately have "tags (fst (summarize_article_tool ascii_db
      (always_answer ([] @ lit ''Tags:'' @ lit '' , ,'')) () (PStr []) (PStr []) (PStr []))) = []"
    by (rule tags_empty_after_blank_marker[where chain_run = "always_answer ([] @ lit ''Tags:'' @ lit '' , ,'')"
          and st = "()" and U = ascii_db and title = "PStr []" and description = "PStr []"
          and content = "PStr []", OF always_answer_run])
  moreover have "contains (lit ''Tags:'') ([] @ lit ''Tags:'' @ lit '' , ,'')"
    by (rule contains_mid)
  ultimately show ?thesis by (rule conjI)
qed


section \<open>The summarise stage: results\<close>

lemma invoke_on_strings:
  "invoke_summarize_article_tool U chain_run st (PStr title) (PStr description) (PStr content)
     = Some (summarize_article_tool U chain_run st (PStr title) (PStr description) (PStr content))"
  by (simp add: invoke_summarize_article_tool_def)







text \<open>An article with a \<open>None\<close> title makes the stage raise.\<close>

lemma summarize_node_raises_on_None:
  "summarize_node U L chain_run st
     \<lparr> st_topic = topic, st_articles = [[''title'' \<mapsto> PNone]], st_summaries = [] \<rparr> = None"
  by (simp add: summarize_node_def invoke_summarize_article_tool_def dget_def)




end
